theory Spec2Isabelle
  imports Complex_Main
begin

section \<open>Errors and array primitives\<close>

text \<open>
  Event times are Python floats in the source; they are modelled as exact reals, so
  rounding, infinities and NaN inside the input sequences are outside this development.
  Exceptions are values of \<open>error\<close>; a function that can raise returns \<open>error + 'a\<close>.
\<close>

datatype error =
    BeatIntervalError
  | ValueError
  | AssertionError
  | IndexError
  | EmptyReferenceError

text \<open>\<open>np.diff\<close>: successive differences, empty for fewer than two entries.\<close>

fun np_diff :: "'a::minus list \<Rightarrow> 'a list" where
  "np_diff (x # y # ys) = (y - x) # np_diff (y # ys)"
| "np_diff [x] = []"
| "np_diff [] = []"

text \<open>\<open>np.nonzero(mask)[0]\<close>: the positions at which a boolean array is true.\<close>

fun nonzero_from :: "int \<Rightarrow> bool list \<Rightarrow> int list" where
  "nonzero_from i [] = []"
| "nonzero_from i (b # bs) = (if b then i # nonzero_from (i + 1) bs else nonzero_from (i + 1) bs)"

definition np_nonzero :: "bool list \<Rightarrow> int list" where
  "np_nonzero bs = nonzero_from 0 bs"

text \<open>\<open>np.max\<close> and \<open>np.argmax\<close> raise \<open>ValueError\<close> on an empty array; \<open>np.argmax\<close>
  returns the first position of the maximum.\<close>

fun np_max :: "int list \<Rightarrow> error + int" where
  "np_max [] = Inl ValueError"
| "np_max (x # xs) = Inr (fold max xs x)"

fun np_argmax :: "int list \<Rightarrow> error + nat" where
  "np_argmax [] = Inl ValueError"
| "np_argmax (x # xs) = Inr (length (takeWhile (\<lambda>y. y \<noteq> fold max xs x) (x # xs)))"

section \<open>Segment analysis\<close>

text \<open>\<open>find_longest_continuous_segment\<close> of \<open>madmom/evaluation/beats.py\<close>.\<close>

definition segment_boundaries :: "int list \<Rightarrow> int list" where
  "segment_boundaries sequence_indices =
     [0] @ map (\<lambda>i. i + 1) (np_nonzero (map (\<lambda>d. d \<noteq> 1) (np_diff sequence_indices)))
         @ [int (length sequence_indices)]"

definition find_longest_continuous_segment :: "int list \<Rightarrow> error + (int \<times> int)" where
  "find_longest_continuous_segment sequence_indices =
     (let boundaries = segment_boundaries sequence_indices;
          segment_lengths = np_diff boundaries
      in case np_max segment_lengths of
           Inl e \<Rightarrow> Inl e
         | Inr len \<Rightarrow>
            (case np_argmax segment_lengths of
               Inl e \<Rightarrow> Inl e
             | Inr k \<Rightarrow> Inr (len, boundaries ! k)))"

section \<open>Floats that need not be finite\<close>

text \<open>
  Where the source can produce an infinity or \<open>np.nan\<close> as a value (a logarithm of a
  non-positive bin count, a division by a zero interval, the \<open>np.nan\<close> placeholder of
  \<open>continuity\<close>), the result is a \<open>pyfloat\<close>. Every comparison with \<open>NaN\<close> is false.
\<close>

datatype pyfloat = Fin real | PosInf | NegInf | NaN

fun py_less :: "pyfloat \<Rightarrow> pyfloat \<Rightarrow> bool" where
  "py_less NaN b = False"
| "py_less a NaN = False"
| "py_less (Fin a) (Fin b) = (a < b)"
| "py_less a NegInf = False"
| "py_less NegInf b = True"
| "py_less PosInf b = False"
| "py_less (Fin a) PosInf = True"

text \<open>Python's built-in \<open>max(a, b)\<close> keeps \<open>a\<close> unless \<open>b > a\<close>.\<close>

definition py_max :: "pyfloat \<Rightarrow> pyfloat \<Rightarrow> pyfloat" where
  "py_max a b = (if py_less a b then b else a)"

text \<open>Float division \<open>e / i\<close> of numpy: a zero divisor gives an infinity or \<open>NaN\<close>.\<close>

definition np_divide :: "real \<Rightarrow> real \<Rightarrow> pyfloat" where
  "np_divide e i =
     (if i \<noteq> 0 then Fin (e / i)
      else if 0 < e then PosInf else if e < 0 then NegInf else NaN)"

text \<open>\<open>np.log2\<close> of an integer: \<open>-inf\<close> at 0 and \<open>nan\<close> below.\<close>

definition np_log2 :: "int \<Rightarrow> pyfloat" where
  "np_log2 n = (if 0 < n then Fin (log 2 (real_of_int n)) else if n = 0 then NegInf else NaN)"

text \<open>\<open>np.zeros(n)\<close> and \<open>np.ones(n) * v\<close> raise \<open>ValueError\<close> for a negative size.\<close>

definition np_full :: "int \<Rightarrow> real \<Rightarrow> error + real list" where
  "np_full n v = (if n < 0 then Inl ValueError else Inr (replicate (nat n) v))"

section \<open>Sequence matching\<close>

text \<open>
  Modelled from the spec: \<open>find_closest_matches\<close>, \<open>calc_errors\<close> and
  \<open>calc_absolute_errors\<close> of \<open>madmom/evaluation/__init__.py\<close>, which \<open>beats.py\<close>
  imports. The spec (4.1) gives \<open>closestIndex(query, reference)\<close>: for every
  element of the query the index of the nearest element of the reference by absolute time
  difference, failing with \<open>EmptyReferenceError\<close> on an empty reference;
  \<open>signedError\<close> is \<open>query[i] - reference[match[i]]\<close> and \<open>absoluteError\<close> its absolute
  value. The spec leaves the choice between two equidistant reference elements open and
  suggests the earlier one, which \<open>nearest\<close> takes. An index outside the reference, or a
  match array of another length than the query, is an \<open>IndexError\<close>.
\<close>

fun nearest :: "real \<Rightarrow> real list \<Rightarrow> nat" where
  "nearest q [] = 0"
| "nearest q [r] = 0"
| "nearest q (r # r' # rs) =
     (if \<bar>q - r\<bar> \<le> \<bar>q - (r' # rs) ! nearest q (r' # rs)\<bar> then 0
      else Suc (nearest q (r' # rs)))"

definition find_closest_matches :: "real list \<Rightarrow> real list \<Rightarrow> error + nat list" where
  "find_closest_matches query reference =
     (if reference = [] then Inl EmptyReferenceError
      else Inr (map (\<lambda>q. nearest q reference) query))"

definition resolve_matches :: "real list \<Rightarrow> real list \<Rightarrow> nat list option \<Rightarrow> error + nat list" where
  "resolve_matches query reference matches =
     (case matches of
        None \<Rightarrow> find_closest_matches query reference
      | Some m \<Rightarrow> Inr m)"

definition calc_errors :: "real list \<Rightarrow> real list \<Rightarrow> nat list option \<Rightarrow> error + real list" where
  "calc_errors query reference matches =
     (case resolve_matches query reference matches of
        Inl e \<Rightarrow> Inl e
      | Inr m \<Rightarrow>
          if length m \<noteq> length query \<or> (\<exists>i \<in> set m. length reference \<le> i) then Inl IndexError
          else Inr (map (\<lambda>(q, i). q - reference ! i) (zip query m)))"

definition calc_absolute_errors :: "real list \<Rightarrow> real list \<Rightarrow> nat list option \<Rightarrow> error + real list" where
  "calc_absolute_errors query reference matches =
     (case calc_errors query reference matches of
        Inl e \<Rightarrow> Inl e
      | Inr errors \<Rightarrow> Inr (map abs errors))"

section \<open>Interval model\<close>

text \<open>\<open>calc_intervals\<close> of \<open>beats.py\<close>.\<close>

definition calc_intervals :: "real list \<Rightarrow> bool \<Rightarrow> error + real list" where
  "calc_intervals events fwd =
     (if length events < 2 then Inl BeatIntervalError
      else if fwd then Inr (np_diff events @ [last (np_diff events)])
      else Inr (hd (np_diff events) # np_diff events))"

text \<open>
  The interval array that \<open>find_closest_intervals\<close> builds: \<open>np.zeros(len(annotations) + 1)\<close>,
  then \<open>intervals[1:-1] = np.diff(annotations)\<close>, \<open>intervals[0] = intervals[1]\<close> and
  \<open>intervals[-1] = intervals[-2]\<close>.
\<close>

definition interval_table :: "real list \<Rightarrow> real list" where
  "interval_table annotations =
     (let n = length annotations;
          zeros = replicate (n + 1) (0::real);
          filled = take 1 zeros @ np_diff annotations @ drop n zeros;
          first_set = filled[0 := filled ! 1]
      in first_set[n := first_set ! (n - 1)])"

text \<open>\<open>find_closest_intervals\<close> of \<open>beats.py\<close>.\<close>

definition find_closest_intervals :: "real list \<Rightarrow> real list \<Rightarrow> nat list option \<Rightarrow> error + real list" where
  "find_closest_intervals detections annotations matches =
     (if detections = [] then Inr []
      else if length annotations < 2 then Inl BeatIntervalError
      else
        (case resolve_matches detections annotations matches of
           Inl e \<Rightarrow> Inl e
         | Inr m \<Rightarrow>
            (case calc_errors detections annotations (Some m) of
               Inl e \<Rightarrow> Inl e
             | Inr errors \<Rightarrow>
                 Inr (map (\<lambda>(e, i). if 0 < e then interval_table annotations ! (i + 1)
                                     else interval_table annotations ! i)
                        (zip errors m)))))"

text \<open>\<open>calc_relative_errors\<close> of \<open>beats.py\<close>.\<close>

definition calc_relative_errors :: "real list \<Rightarrow> real list \<Rightarrow> nat list option \<Rightarrow> error + pyfloat list" where
  "calc_relative_errors detections annotations matches =
     (if detections = [] then Inr []
      else if length annotations < 2 then Inl BeatIntervalError
      else
        (case resolve_matches detections annotations matches of
           Inl e \<Rightarrow> Inl e
         | Inr m \<Rightarrow>
            (case calc_errors detections annotations (Some m) of
               Inl e \<Rightarrow> Inl e
             | Inr errors \<Rightarrow>
                (case find_closest_intervals detections annotations (Some m) of
                   Inl e \<Rightarrow> Inl e
                 | Inr intervals \<Rightarrow>
                     Inr (map (\<lambda>(e, i). np_divide e i) (zip errors intervals))))))"

section \<open>Metrical variations\<close>

text \<open>
  \<open>np.arange(0, stop, step)\<close> has \<open>ceil(stop / step)\<close> entries \<open>i * step\<close>;
  \<open>np.interp(x, xp, fp)\<close> interpolates linearly between the points \<open>(xp[j], fp[j])\<close>,
  is constant outside them, and raises \<open>ValueError\<close> without points.
  \<open>seq[start::step]\<close> keeps the entries at positions \<open>start, start + step, ...\<close>.
\<close>

definition np_arange :: "nat \<Rightarrow> real \<Rightarrow> real list" where
  "np_arange stop step = map (\<lambda>i. real i * step) [0..<nat \<lceil>real stop / step\<rceil>]"

fun interp_at :: "real \<Rightarrow> real \<times> real \<Rightarrow> (real \<times> real) list \<Rightarrow> real" where
  "interp_at x (x0, y0) [] = y0"
| "interp_at x (x0, y0) ((x1, y1) # ps) =
     (if x \<le> x0 then y0
      else if x < x1 then y0 + (y1 - y0) / (x1 - x0) * (x - x0)
      else interp_at x (x1, y1) ps)"

definition np_interp :: "real list \<Rightarrow> real list \<Rightarrow> real list \<Rightarrow> error + real list" where
  "np_interp x xp fp =
     (if length xp \<noteq> length fp then Inl ValueError
      else case zip xp fp of
             [] \<Rightarrow> Inl ValueError
           | p # ps \<Rightarrow> Inr (map (\<lambda>v. interp_at v p ps) x))"

definition slice_step :: "nat \<Rightarrow> nat \<Rightarrow> 'a list \<Rightarrow> 'a list" where
  "slice_step start step xs =
     map (\<lambda>i. xs ! i) (filter (\<lambda>i. start \<le> i \<and> (i - start) mod step = 0) [0..<length xs])"

text \<open>The two interpolated sequences of \<open>variations\<close>.\<close>

definition double_sequence :: "real list \<Rightarrow> error + real list" where
  "double_sequence sequence =
     (if length sequence = 0 then Inr []
      else np_interp (butlast (np_arange (length sequence) (1 / 2)))
                     (np_arange (length sequence) 1) sequence)"

definition triple_sequence :: "real list \<Rightarrow> error + real list" where
  "triple_sequence sequence =
     (if length sequence = 0 then Inr []
      else np_interp (butlast (butlast (np_arange (length sequence) (1 / 3))))
                     (np_arange (length sequence) 1) sequence)"

text \<open>\<open>variations\<close> of \<open>beats.py\<close>.\<close>

definition variations ::
  "real list \<Rightarrow> bool \<Rightarrow> bool \<Rightarrow> bool \<Rightarrow> bool \<Rightarrow> bool \<Rightarrow> error + real list list" where
  "variations sequence offbeat double half triple third =
     (case (if double \<or> offbeat
            then (case double_sequence sequence of
                    Inl e \<Rightarrow> Inl e
                  | Inr ds \<Rightarrow> Inr ((if offbeat then [slice_step 1 2 ds] else [])
                                    @ (if double then [ds] else [])))
            else Inr []) of
        Inl e \<Rightarrow> Inl e
      | Inr doubles \<Rightarrow>
         (case (if triple
                then (case triple_sequence sequence of
                        Inl e \<Rightarrow> Inl e
                      | Inr ts \<Rightarrow> Inr [ts])
                else Inr []) of
            Inl e \<Rightarrow> Inl e
          | Inr triples \<Rightarrow>
              Inr (doubles
                   @ (if half then [slice_step 0 2 sequence, slice_step 1 2 sequence] else [])
                   @ triples
                   @ (if third then [slice_step 0 3 sequence, slice_step 1 3 sequence,
                                     slice_step 2 3 sequence] else []))))"

section \<open>Score functions\<close>

text \<open>\<open>np.median\<close>, the middle entry of the sorted array or the mean of the two middle
  entries (\<open>nan\<close> for an empty array), \<open>np.mean\<close> and \<open>np.std\<close>.\<close>

definition median :: "real list \<Rightarrow> real" where
  "median xs =
     (let s = sort xs; n = length s
      in if odd n then s ! (n div 2)
         else (s ! (n div 2 - 1) + s ! (n div 2)) / 2)"

definition np_median :: "real list \<Rightarrow> pyfloat" where
  "np_median xs = (if length xs = 0 then NaN else Fin (median xs))"

definition np_mean :: "real list \<Rightarrow> real" where
  "np_mean xs = sum_list xs / real (length xs)"

definition np_std :: "real list \<Rightarrow> real" where
  "np_std xs = sqrt (np_mean (map (\<lambda>x. (x - np_mean xs)\<^sup>2) xs))"

text \<open>\<open>pscore\<close> of \<open>beats.py\<close>. A \<open>nan\<close> window admits no detection.\<close>

definition pscore :: "real list \<Rightarrow> real list \<Rightarrow> real \<Rightarrow> error + real" where
  "pscore detections annotations tolerance =
     (if length detections = 0 \<and> length annotations = 0 then Inr 1
      else if (length detections = 0) \<noteq> (length annotations = 0) then Inr 0
      else if length annotations < 2 then Inl BeatIntervalError
      else if tolerance \<le> 0 then Inl ValueError
      else
        (case calc_absolute_errors detections annotations None of
           Inl e \<Rightarrow> Inl e
         | Inr errors \<Rightarrow>
             (let p = (case np_median (np_diff annotations) of
                         Fin m \<Rightarrow> length (filter (\<lambda>e. e \<le> tolerance * m) errors)
                       | _ \<Rightarrow> 0)
              in Inr (real p / real (max (length detections) (length annotations))))))"

text \<open>\<open>cemgil\<close> of \<open>beats.py\<close>.\<close>

definition cemgil :: "real list \<Rightarrow> real list \<Rightarrow> real \<Rightarrow> error + real" where
  "cemgil detections annotations sigma =
     (if length detections = 0 \<and> length annotations = 0 then Inr 1
      else if (length detections = 0) \<noteq> (length annotations = 0) then Inr 0
      else if sigma \<le> 0 then Inl ValueError
      else
        (case calc_absolute_errors detections annotations None of
           Inl e \<Rightarrow> Inl e
         | Inr errors \<Rightarrow>
             Inr (sum_list (map (\<lambda>e. exp (- (e\<^sup>2) / (2 * sigma\<^sup>2))) errors)
                  / (1 / 2 * real (length annotations + length detections)))))"

text \<open>
  \<open>goto\<close> of \<open>beats.py\<close>. The errors kept by the threshold test are finite, so the
  errors of the longest segment are read as reals.
\<close>

definition goto :: "real list \<Rightarrow> real list \<Rightarrow> real \<Rightarrow> real \<Rightarrow> real \<Rightarrow> error + real" where
  "goto detections annotations threshold sigma mu =
     (if length detections = 0 \<and> length annotations = 0 then Inr 1
      else if (length detections = 0) \<noteq> (length annotations = 0) then Inr 0
      else if length annotations < 2 then Inl BeatIntervalError
      else if threshold \<le> 0 \<or> sigma \<le> 0 \<or> mu \<le> 0 then Inl ValueError
      else
        (case find_closest_matches annotations detections of
           Inl e \<Rightarrow> Inl e
         | Inr closest \<Rightarrow>
            (case calc_relative_errors detections annotations None of
               Inl e \<Rightarrow> Inl e
             | Inr errors \<Rightarrow>
                (let kept = filter (\<lambda>i. case errors ! i of Fin e \<Rightarrow> \<bar>e\<bar> \<le> threshold
                                                         | _ \<Rightarrow> False) closest
                 in case find_longest_continuous_segment (map int kept) of
                      Inl e \<Rightarrow> Inl e
                    | Inr (len, start) \<Rightarrow>
                        if real_of_int len < 1 / 4 * real (length annotations) then Inr 0
                        else
                          (let segment_errors =
                                 map (\<lambda>i. case errors ! i of Fin e \<Rightarrow> e | _ \<Rightarrow> 0)
                                     (take (nat len) (drop (nat start) kept))
                           in if np_mean (map abs segment_errors) > mu then Inr 0
                              else if np_std segment_errors > sigma then Inr 0
                              else Inr 1)))))"

text \<open>
  \<open>cml\<close> of \<open>beats.py\<close>. \<open>np.intersect1d\<close> gives the sorted distinct values common to
  both arrays; \<open>np.searchsorted\<close> gives, for ordered detections, the position of the first
  entry not below the value.
\<close>

definition np_intersect1d :: "real list \<Rightarrow> real list \<Rightarrow> real list" where
  "np_intersect1d xs ys = sort (remdups (filter (\<lambda>x. x \<in> set ys) xs))"

definition np_searchsorted :: "real list \<Rightarrow> real list \<Rightarrow> int list" where
  "np_searchsorted a vs = map (\<lambda>v. int (length (takeWhile (\<lambda>y. y < v) a))) vs"

definition cml :: "real list \<Rightarrow> real list \<Rightarrow> real \<Rightarrow> real \<Rightarrow> error + (real \<times> real)" where
  "cml detections annotations phase_tolerance tempo_tolerance =
     (if length detections = 0 \<and> length annotations = 0 then Inr (1, 1)
      else if (length detections = 0) \<noteq> (length annotations = 0) then Inr (0, 0)
      else if length annotations < 2 then Inl BeatIntervalError
      else if length detections < 2 then Inl BeatIntervalError
      else if tempo_tolerance \<le> 0 \<or> phase_tolerance \<le> 0 then Inl ValueError
      else
        (case find_closest_matches detections annotations of
           Inl e \<Rightarrow> Inl e
         | Inr closest \<Rightarrow>
        (case calc_absolute_errors detections annotations (Some closest) of
           Inl e \<Rightarrow> Inl e
         | Inr errors \<Rightarrow>
        (case calc_intervals detections False of
           Inl e \<Rightarrow> Inl e
         | Inr det_interval \<Rightarrow>
        (case calc_intervals annotations False of
           Inl e \<Rightarrow> Inl e
         | Inr all_ann_interval \<Rightarrow>
            (let ann_interval = map (\<lambda>i. all_ann_interval ! i) closest;
                 correct_phase =
                   map fst (filter (\<lambda>(d, e, ai). e \<le> ai * phase_tolerance)
                              (zip detections (zip errors ann_interval)));
                 correct_tempo =
                   map fst (filter (\<lambda>(d, di, ai). case np_divide di ai of
                                                     Fin r \<Rightarrow> \<bar>1 - r\<bar> \<le> tempo_tolerance
                                                   | _ \<Rightarrow> False)
                              (zip detections (zip det_interval ann_interval)));
                 correct = np_intersect1d correct_phase correct_tempo;
                 correct_idx = np_searchsorted detections correct;
                 len = real (max (length detections) (length annotations))
             in case find_longest_continuous_segment correct_idx of
                  Inl e \<Rightarrow> Inl e
                | Inr (longest, start) \<Rightarrow>
                    Inr (real_of_int longest / len, real (length correct) / len)))))))"

text \<open>
  \<open>continuity\<close> of \<open>beats.py\<close>. Both calls of \<open>cml\<close> pass \<open>tempo_tolerance\<close> as the third
  and \<open>phase_tolerance\<close> as the fourth positional argument, as the source does. The loop
  over the variants catches \<open>BeatIntervalError\<close> only and then takes \<open>np.nan\<close> for both
  scores.
\<close>

fun continuity_variants ::
  "real list \<Rightarrow> real \<Rightarrow> real \<Rightarrow> real list list \<Rightarrow> pyfloat \<Rightarrow> pyfloat \<Rightarrow> error + (pyfloat \<times> pyfloat)" where
  "continuity_variants detections phase_tolerance tempo_tolerance [] amlc amlt = Inr (amlc, amlt)"
| "continuity_variants detections phase_tolerance tempo_tolerance (sequence # sequences) amlc amlt =
     (case cml detections sequence tempo_tolerance phase_tolerance of
        Inl BeatIntervalError \<Rightarrow>
          continuity_variants detections phase_tolerance tempo_tolerance sequences
            (py_max amlc NaN) (py_max amlt NaN)
      | Inl e \<Rightarrow> Inl e
      | Inr (c, t) \<Rightarrow>
          continuity_variants detections phase_tolerance tempo_tolerance sequences
            (py_max amlc (Fin c)) (py_max amlt (Fin t)))"

definition continuity ::
  "real list \<Rightarrow> real list \<Rightarrow> real \<Rightarrow> real \<Rightarrow> bool \<Rightarrow> bool \<Rightarrow> bool
     \<Rightarrow> error + (pyfloat \<times> pyfloat \<times> pyfloat \<times> pyfloat)" where
  "continuity detections annotations phase_tolerance tempo_tolerance offbeat double triple =
     (if length detections = 0 \<and> length annotations = 0 then Inr (Fin 1, Fin 1, Fin 1, Fin 1)
      else if (length detections = 0) \<noteq> (length annotations = 0)
        then Inr (Fin 0, Fin 0, Fin 0, Fin 0)
      else
        (case cml detections annotations tempo_tolerance phase_tolerance of
           Inl e \<Rightarrow> Inl e
         | Inr (cmlc, cmlt) \<Rightarrow>
             if cmlc > 1 / 2 then Inr (Fin cmlc, Fin cmlt, Fin cmlc, Fin cmlt)
             else
               (case variations annotations offbeat double double triple triple of
                  Inl e \<Rightarrow> Inl e
                | Inr sequences \<Rightarrow>
                   (case continuity_variants detections phase_tolerance tempo_tolerance
                           sequences (Fin cmlc) (Fin cmlt) of
                      Inl e \<Rightarrow> Inl e
                    | Inr (amlc, amlt) \<Rightarrow> Inr (Fin cmlc, Fin cmlt, amlc, amlt)))))"

section \<open>Information gain\<close>

text \<open>
  \<open>np.linspace(start, stop, num)\<close>; \<open>np.histogram(values, edges)[0]\<close>, whose bins are
  half-open except the last, which is closed; \<open>np.mod(x, -1)\<close>, which is \<open>x + floor(-x)\<close>.
\<close>

definition np_linspace :: "real \<Rightarrow> real \<Rightarrow> nat \<Rightarrow> real list" where
  "np_linspace start stop num =
     map (\<lambda>i. start + real i * ((stop - start) / real (num - 1))) [0..<num]"

definition np_histogram :: "real list \<Rightarrow> real list \<Rightarrow> real list" where
  "np_histogram values edges =
     (let k = length edges - 1
      in map (\<lambda>j. real (length (filter
                (\<lambda>v. edges ! j \<le> v \<and> (if j + 1 = k then v \<le> edges ! (j + 1)
                                         else v < edges ! (j + 1))) values)))
           [0..<k])"

text \<open>\<open>_histogram_bins\<close> of \<open>beats.py\<close>.\<close>

definition histogram_bins :: "int \<Rightarrow> error + real list" where
  "histogram_bins num_bins =
     (if num_bins mod 2 \<noteq> 0 \<or> num_bins < 2 then Inl ValueError
      else
        (let offset = (1 / 2) / real_of_int num_bins
         in Inr (np_linspace (- (1 / 2) - offset) (1 / 2 + offset) (nat (num_bins + 2)))))"

text \<open>
  \<open>_error_histogram\<close> of \<open>beats.py\<close>. A relative error that is not finite becomes \<open>nan\<close>
  under \<open>np.mod\<close> and falls into no bin.
\<close>

definition error_histogram :: "real list \<Rightarrow> real list \<Rightarrow> real list \<Rightarrow> error + real list" where
  "error_histogram detections annotations histogram_edges =
     (case calc_relative_errors detections annotations None of
        Inl e \<Rightarrow> Inl e
      | Inr errors \<Rightarrow>
         (let folded = concat (map (\<lambda>v. case v of
                                          Fin e \<Rightarrow> [(e + 1 / 2) + of_int \<lfloor>- (e + 1 / 2)\<rfloor> + 1 / 2]
                                        | _ \<Rightarrow> []) errors);
              histogram = np_histogram folded histogram_edges;
              circular = histogram[0 := histogram ! 0 + last histogram]
          in Inr (butlast circular)))"

text \<open>\<open>_entropy\<close> and \<open>_information_gain\<close> of \<open>beats.py\<close>.\<close>

definition entropy :: "real list \<Rightarrow> real" where
  "entropy error_hist =
     (let total = sum_list error_hist;
          normal = map (\<lambda>x. x / total) error_hist;
          histogram = map (\<lambda>x. if x = 0 then 1 else x) normal
      in - sum_list (map (\<lambda>x. x * log 2 x) histogram))"

definition histogram_information_gain :: "real list \<Rightarrow> pyfloat" where
  "histogram_information_gain error_hist =
     (let h = (if \<exists>x \<in> set error_hist. x \<noteq> 0 then entropy error_hist else 0)
      in case np_log2 (int (length error_hist)) of
           Fin l \<Rightarrow> Fin (l - h)
         | v \<Rightarrow> v)"

text \<open>\<open>information_gain\<close> of \<open>beats.py\<close>; the warning on few annotations has no effect on
  the result.\<close>

definition information_gain :: "real list \<Rightarrow> real list \<Rightarrow> int \<Rightarrow> error + (pyfloat \<times> real list)" where
  "information_gain detections annotations num_bins =
     (if length detections = 0 \<and> length annotations = 0 then
        (case np_full num_bins 0 of
           Inl e \<Rightarrow> Inl e
         | Inr zeros \<Rightarrow> Inr (np_log2 num_bins, zeros))
      else if length detections = 0 \<or> length annotations = 0 then
        (case np_full num_bins
                (1 * real (max (length detections) (length annotations)) / real_of_int num_bins) of
           Inl e \<Rightarrow> Inl e
         | Inr uniform \<Rightarrow> Inr (Fin 0, uniform))
      else if length detections < 2 \<or> length annotations < 2 then Inl BeatIntervalError
      else
        (case histogram_bins num_bins of
           Inl e \<Rightarrow> Inl e
         | Inr histogram_edges \<Rightarrow>
        (case error_histogram detections annotations histogram_edges of
           Inl e \<Rightarrow> Inl e
         | Inr fwd_histogram \<Rightarrow>
        (case error_histogram annotations detections histogram_edges of
           Inl e \<Rightarrow> Inl e
         | Inr bwd_histogram \<Rightarrow>
            (let fwd_ig = histogram_information_gain fwd_histogram;
                 bwd_ig = histogram_information_gain bwd_histogram
             in if py_less fwd_ig bwd_ig then Inr (fwd_ig, fwd_histogram)
                else Inr (bwd_ig, bwd_histogram))))))"

section \<open>Onset matching\<close>

text \<open>
  The \<open>while\<close> loop of \<open>onset_evaluation\<close> in \<open>onsets.py\<close>, over the sorted arrays and the two
  indices, with the arrays \<open>tp\<close>, \<open>fp\<close>, \<open>fn\<close> and \<open>errors\<close> it appends to. It returns the
  indices at which the loop stopped.
\<close>

function onset_loop ::
  "real \<Rightarrow> real list \<Rightarrow> real list \<Rightarrow> nat \<Rightarrow> nat
     \<Rightarrow> real list \<times> real list \<times> real list \<times> real list
     \<Rightarrow> error + (nat \<times> nat \<times> real list \<times> real list \<times> real list \<times> real list)" where
  "onset_loop window det ann det_index ann_index (tp, fp, fn, errors) =
     (if det_index < length det \<and> ann_index < length ann then
        (if \<bar>det ! det_index - ann ! ann_index\<bar> \<le> window then
           onset_loop window det ann (det_index + 1) (ann_index + 1)
             (tp @ [det ! det_index], fp, fn, errors @ [det ! det_index - ann ! ann_index])
         else if det ! det_index < ann ! ann_index then
           onset_loop window det ann (det_index + 1) ann_index
             (tp, fp @ [det ! det_index], fn, errors)
         else if det ! det_index > ann ! ann_index then
           onset_loop window det ann det_index (ann_index + 1)
             (tp, fp, fn @ [ann ! ann_index], errors)
         else Inl AssertionError)
      else Inr (det_index, ann_index, tp, fp, fn, errors))"
  by pat_completeness auto
termination
  by (relation "measure (\<lambda>(window, det, ann, det_index, ann_index, acc).
                  (length det - det_index) + (length ann - ann_index))") auto

declare onset_loop.simps [simp del]

text \<open>The loop invariant: the indices stay within the arrays and count the entries emitted.\<close>

definition onset_inv :: "real list \<Rightarrow> real list \<Rightarrow> nat \<Rightarrow> nat \<Rightarrow> real list \<times> real list \<times> real list \<times> real list \<Rightarrow> bool" where
  "onset_inv det ann det_index ann_index acc =
     (case acc of (tp, fp, fn, errors) \<Rightarrow>
        det_index \<le> length det \<and> ann_index \<le> length ann \<and>
        length tp + length fp = det_index \<and> length tp + length fn = ann_index \<and>
        length tp = length errors)"

text \<open>\<open>onset_evaluation\<close> of \<open>onsets.py\<close>; the result is \<open>(tp, fp, tn, fn, errors)\<close>.\<close>

definition onset_evaluation ::
  "real list \<Rightarrow> real list \<Rightarrow> real
     \<Rightarrow> error + (real list \<times> real list \<times> real list \<times> real list \<times> real list)" where
  "onset_evaluation detections annotations window =
     (if length detections = 0 \<and> length annotations = 0 then Inr ([], [], [], [], [])
      else if length annotations = 0 then Inr ([], detections, [], [], [])
      else if length detections = 0 then Inr ([], [], [], annotations, [])
      else if window \<le> 0 then Inl ValueError
      else
        (case onset_loop window (sort detections) (sort annotations) 0 0 ([], [], [], []) of
           Inl e \<Rightarrow> Inl e
         | Inr (det_index, ann_index, tp, fp, fn, errors) \<Rightarrow>
            (let fp = fp @ drop det_index (sort detections);
                 fn = fn @ drop ann_index (sort annotations)
             in if length tp + length fp \<noteq> length detections then Inl AssertionError
                else if length tp + length fn \<noteq> length annotations then Inl AssertionError
                else if length tp \<noteq> length errors then Inl AssertionError
                else Inr (tp, fp, [], fn, errors))))"

section \<open>The specification's reading of the longest run\<close>

text \<open>
  The spec (4.3) describes \<open>longestRun\<close> in words: the sequence is split into runs at
  every position where consecutive entries differ by anything other than exactly 1, and
  the length and the starting offset of the longest run are returned, the first one among
  runs of equal length. \<open>split_runs\<close> and \<open>longest_run\<close> follow these words, not the code.
\<close>

fun split_runs :: "int list \<Rightarrow> int list list" where
  "split_runs [] = []"
| "split_runs [x] = [[x]]"
| "split_runs (x # y # ys) =
     (if y - x = 1
      then (case split_runs (y # ys) of [] \<Rightarrow> [[x]] | r # rs \<Rightarrow> (x # r) # rs)
      else [x] # split_runs (y # ys))"

definition longest_run :: "int list \<Rightarrow> int \<times> int" where
  "longest_run xs =
     (let runs = split_runs xs;
          best = Max (set (map length runs));
          earlier = takeWhile (\<lambda>r. length r \<noteq> best) runs
      in (int best, int (length (concat earlier))))"

definition run_ends :: "int list \<Rightarrow> int list" where
  "run_ends xs = map (\<lambda>i. i + 1) (np_nonzero (map (\<lambda>d. d \<noteq> 1) (np_diff xs))) @ [int (length xs)]"

section \<open>The specification's reading of the P-score\<close>

text \<open>
  The spec (4.5) gives the P-score as the number of detections whose absolute error to the
  nearest annotation is at most \<open>tolerance * median(annotation intervals)\<close>, divided by
  \<open>max(len(detections), len(annotations))\<close>. The error to the nearest annotation is the
  least distance to any annotation.
\<close>

definition nearest_distance :: "real \<Rightarrow> real list \<Rightarrow> real" where
  "nearest_distance x ys = Min ((\<lambda>y. \<bar>x - y\<bar>) ` set ys)"

definition pscore_spec :: "real list \<Rightarrow> real list \<Rightarrow> real \<Rightarrow> real" where
  "pscore_spec detections annotations tolerance =
     real (length (filter (\<lambda>d. nearest_distance d annotations
                                  \<le> tolerance * median (np_diff annotations)) detections))
     / real (max (length detections) (length annotations))"

section \<open>Properties of the segment analysis\<close>

text \<open>
  C10: applied to an empty sequence, \<open>find_longest_continuous_segment\<close> returns length 0
  and start offset 0 and raises nothing.
\<close>

theorem find_longest_continuous_segment_empty:
  "find_longest_continuous_segment [] = Inr (0, 0)"
  by (simp add: find_longest_continuous_segment_def segment_boundaries_def np_nonzero_def)

text \<open>The runs of \<open>split_runs\<close> partition the sequence into blocks of consecutive integers,
  and no block can be extended: the step from one block to the next is never exactly 1.\<close>

lemma split_runs_not_Nil: "xs \<noteq> [] \<Longrightarrow> split_runs xs \<noteq> []"
  by (induction xs rule: split_runs.induct) (auto split: list.splits)

lemma split_runs_concat: "concat (split_runs xs) = xs"
  by (induction xs rule: split_runs.induct) (auto split: list.splits)

lemma split_runs_hd: "split_runs (y # ys) = r # rs \<Longrightarrow> \<exists>r'. r = y # r'"
  by (cases ys) (auto split: list.splits if_splits)

lemma split_runs_consecutive:
  "r \<in> set (split_runs xs) \<Longrightarrow> r \<noteq> [] \<and> np_diff r = replicate (length r - 1) 1"
proof (induction xs arbitrary: r rule: split_runs.induct)
  case (3 x y ys)
  obtain q qs where q: "split_runs (y # ys) = q # qs"
    using split_runs_not_Nil [of "y # ys"] by (cases "split_runs (y # ys)") auto
  then obtain q' where q': "q = y # q'" using split_runs_hd by blast
  show ?case
  proof (cases "y - x = 1")
    case True
    have "np_diff q = replicate (length q - 1) 1" using 3(1) [OF True, of q] q by simp
    then have "np_diff (x # q) = replicate (length (x # q) - 1) 1"
      using True q' by simp
    moreover have "r = x # q \<or> r \<in> set qs" using 3(3) True q by simp
    ultimately show ?thesis using 3(1) [OF True, of r] q by auto
  next
    case False
    then show ?thesis using 3(2) [OF False, of r] 3(3) by auto
  qed
qed simp_all

lemma split_runs_maximal:
  "Suc i < length (split_runs xs) \<Longrightarrow>
     hd (split_runs xs ! Suc i) - last (split_runs xs ! i) \<noteq> 1"
proof (induction xs arbitrary: i rule: split_runs.induct)
  case (3 x y ys)
  obtain q qs where q: "split_runs (y # ys) = q # qs"
    using split_runs_not_Nil [of "y # ys"] by (cases "split_runs (y # ys)") auto
  then obtain q' where q': "q = y # q'" using split_runs_hd by blast
  show ?case
  proof (cases "y - x = 1")
    case True
    have sr: "split_runs (x # y # ys) = (x # q) # qs" using True q by simp
    from "3.prems" [unfolded sr] have len: "Suc i < length (q # qs)" by simp
    have ih: "hd ((q # qs) ! Suc i) - last ((q # qs) ! i) \<noteq> 1"
      using "3.IH"(1) [OF True, of i] len q by simp
    show ?thesis
    proof (cases i)
      case 0
      with ih show ?thesis unfolding sr by (simp add: q')
    next
      case (Suc j)
      with ih show ?thesis unfolding sr by simp
    qed
  next
    case False
    have sr: "split_runs (x # y # ys) = [x] # q # qs" using False q by simp
    show ?thesis
    proof (cases i)
      case 0
      with False show ?thesis unfolding sr by (simp add: q')
    next
      case (Suc j)
      with "3.prems" [unfolded sr] have "Suc j < length (q # qs)" by simp
      with "3.IH"(2) [OF False, of j] q Suc show ?thesis unfolding sr by simp
    qed
  qed
qed simp_all

text \<open>The segment lengths computed by the code are the lengths of the runs.\<close>

lemma nonzero_from_shift: "nonzero_from (i + k) bs = map (\<lambda>j. j + k) (nonzero_from i bs)"
proof (induction bs arbitrary: i)
  case Nil show ?case by simp
next
  case (Cons b bs)
  have "nonzero_from (i + k + 1) bs = map (\<lambda>j. j + k) (nonzero_from (i + 1) bs)"
    using Cons.IH [of "i + 1"] by (simp add: add.commute add.left_commute)
  then show ?case by simp
qed

lemma np_diff_shift: "np_diff (map (\<lambda>b. b + c) zs) = np_diff (zs :: int list)"
  by (induction zs rule: np_diff.induct) simp_all

lemma segment_boundaries_ends: "segment_boundaries xs = 0 # run_ends xs"
  by (simp add: segment_boundaries_def run_ends_def)

lemma run_ends_single: "run_ends [x] = [1]"
  by (simp add: run_ends_def np_nonzero_def)

lemma run_ends_step:
  "run_ends (x # y # ys) =
     (if y - x \<noteq> 1 then 1 # map (\<lambda>i. i + 1) (run_ends (y # ys))
      else map (\<lambda>i. i + 1) (run_ends (y # ys)))"
  using nonzero_from_shift [of 0 1 "map (\<lambda>d. d \<noteq> 1) (np_diff (y # ys))"]
  by (simp add: run_ends_def np_nonzero_def)

lemma run_ends_not_Nil: "run_ends xs \<noteq> []"
  by (simp add: run_ends_def)

lemma segment_lengths_runs:
  "xs \<noteq> [] \<Longrightarrow> np_diff (0 # run_ends xs) = map (\<lambda>r. int (length r)) (split_runs xs)"
proof (induction xs rule: split_runs.induct)
  case 1 then show ?case by simp
next
  case (2 x) show ?case by (simp add: run_ends_single)
next
  case (3 x y ys)
  obtain e es where e: "run_ends (y # ys) = e # es"
    using run_ends_not_Nil [of "y # ys"] by (cases "run_ends (y # ys)") auto
  obtain r rs where r: "split_runs (y # ys) = r # rs"
    using split_runs_not_Nil [of "y # ys"] by (cases "split_runs (y # ys)") auto
  show ?case
  proof (cases "y - x = 1")
    case True
    from 3(1) [OF True] have "np_diff (0 # e # es) = map (\<lambda>r. int (length r)) (r # rs)"
      unfolding e r by blast
    then have eq: "e # np_diff (e # es) = int (length r) # map (\<lambda>r. int (length r)) rs"
      by (simp only: np_diff.simps list.map diff_zero)
    have ih: "e = int (length r)" "np_diff (e # es) = map (\<lambda>r. int (length r)) rs"
      using eq unfolding list.inject by blast+
    have "np_diff ((e + 1) # map (\<lambda>i. i + 1) es) = np_diff (e # es)"
      using np_diff_shift [of 1 "e # es"] by simp
    with ih True e r show ?thesis
      by (simp add: run_ends_step)
  next
    case False
    from 3(2) [OF False] have ih: "np_diff (0 # run_ends (y # ys)) = map (\<lambda>r. int (length r)) (split_runs (y # ys))"
      by simp
    have "np_diff (1 # map (\<lambda>i. i + 1) (run_ends (y # ys))) = np_diff (0 # run_ends (y # ys))"
      using np_diff_shift [of 1 "0 # run_ends (y # ys)"] by simp
    with ih False show ?thesis
      by (simp add: run_ends_step)
  qed
qed

lemma np_diff_length: "length (np_diff zs) = length zs - 1"
  by (induction zs rule: np_diff.induct) simp_all

lemma nth_from_diff:
  "k < length zs \<Longrightarrow> zs ! k = hd zs + sum_list (take k (np_diff (zs :: int list)))"
proof (induction zs arbitrary: k rule: np_diff.induct)
  case (1 x y ys)
  show ?case
  proof (cases k)
    case 0 then show ?thesis by simp
  next
    case (Suc j)
    with 1 show ?thesis by simp
  qed
qed simp_all

lemma Max_int_length:
  "runs \<noteq> [] \<Longrightarrow> Max (set (map (\<lambda>r. int (length r)) runs)) = int (Max (set (map length runs)))"
proof -
  assume ne: "runs \<noteq> []"
  have "int (Max (length ` set runs)) = Max (int ` (length ` set runs))"
    by (rule mono_Max_commute) (use ne in \<open>auto intro: monoI\<close>)
  then show ?thesis by (simp add: image_image)
qed

lemma takeWhile_int_length:
  "takeWhile (\<lambda>y. y \<noteq> int b) (map (\<lambda>r. int (length r)) runs) =
     map (\<lambda>r. int (length r)) (takeWhile (\<lambda>r. length r \<noteq> b) runs)"
  by (induction runs) simp_all

lemma sum_list_int_length: "sum_list (map (\<lambda>r. int (length r)) rs) = int (length (concat rs))"
  by (induction rs) simp_all

lemma find_longest_continuous_segment_longest_run:
  assumes "xs \<noteq> []"
  shows "find_longest_continuous_segment xs = Inr (longest_run xs)"
proof -
  define runs where "runs = split_runs xs"
  define lens where "lens = map (\<lambda>r. int (length r)) runs"
  define best where "best = Max (set (map length runs))"
  define earlier where "earlier = takeWhile (\<lambda>r. length r \<noteq> best) runs"
  have ne: "runs \<noteq> []" using assms by (simp add: runs_def split_runs_not_Nil)
  then obtain l ls where lens: "lens = l # ls" by (cases runs) (auto simp: lens_def)
  have sl: "np_diff (segment_boundaries xs) = lens"
    using assms by (simp add: segment_boundaries_ends segment_lengths_runs lens_def runs_def)
  have m: "fold max ls l = int best"
    using Max_int_length [OF ne] Max.set_eq_fold [of l ls] by (simp add: lens_def [symmetric] lens best_def)
  have mx: "np_max lens = Inr (int best)" by (simp add: lens m)
  have k: "length (takeWhile (\<lambda>y. y \<noteq> int best) lens) = length earlier"
    by (simp add: lens_def takeWhile_int_length earlier_def)
  have am: "np_argmax lens = Inr (length earlier)"
    using k by (simp add: lens m)
  have len_b: "length (segment_boundaries xs) = Suc (length lens)"
    using np_diff_length [of "segment_boundaries xs"] sl by (simp add: segment_boundaries_def)
  have le: "length earlier \<le> length runs"
    by (simp add: earlier_def length_takeWhile_le)
  have tk: "take (length earlier) runs = earlier"
    unfolding earlier_def by (rule takeWhile_eq_take [symmetric])
  have "segment_boundaries xs ! length earlier = hd (segment_boundaries xs) + sum_list (take (length earlier) lens)"
    by (rule nth_from_diff [of "length earlier" "segment_boundaries xs", unfolded sl]) (use le len_b in \<open>simp add: lens_def\<close>)
  also have "\<dots> = int (length (concat earlier))"
    by (simp add: segment_boundaries_ends lens_def take_map tk sum_list_int_length)
  finally have st: "segment_boundaries xs ! length earlier = int (length (concat earlier))" .
  have lr: "longest_run xs = (int best, int (length (concat earlier)))"
    unfolding longest_run_def Let_def earlier_def best_def runs_def by (rule refl)
  show ?thesis
    by (simp add: find_longest_continuous_segment_def Let_def sl mx am st lr)
qed

text \<open>
  C6: for every non-empty integer sequence, \<open>find_longest_continuous_segment\<close> returns the
  length and the starting offset of the longest run of the sequence split wherever
  consecutive entries do not differ by exactly 1, the first such run among equally long
  ones; it returns \<open>(3, 0)\<close> for \<open>[5,6,7,10,11]\<close> and \<open>(4, 3)\<close> for \<open>[5,6,7,10,11,12,13]\<close>.
\<close>

theorem find_longest_continuous_segment_correct:
  "(xs \<noteq> [] \<longrightarrow> find_longest_continuous_segment xs = Inr (longest_run xs))
   \<and> find_longest_continuous_segment [5, 6, 7, 10, 11] = Inr (3, 0)
   \<and> find_longest_continuous_segment [5, 6, 7, 10, 11, 12, 13] = Inr (4, 3)"
proof (intro conjI impI)
  assume "xs \<noteq> []"
  then show "find_longest_continuous_segment xs = Inr (longest_run xs)"
    by (rule find_longest_continuous_segment_longest_run)
next
  show "find_longest_continuous_segment [5, 6, 7, 10, 11] = Inr (3, 0)"
    by (simp add: find_longest_continuous_segment_def segment_boundaries_def np_nonzero_def)
next
  show "find_longest_continuous_segment [5, 6, 7, 10, 11, 12, 13] = Inr (4, 3)"
    by (simp add: find_longest_continuous_segment_def segment_boundaries_def np_nonzero_def)
qed

theorem find_longest_continuous_segment_correct_witness:
  "find_longest_continuous_segment [5, 6, 7, 10, 11] = Inr (longest_run [5, 6, 7, 10, 11])
   \<and> longest_run [5, 6, 7, 10, 11] = (3, 0)
   \<and> split_runs [5, 6, 7, 10, 11] = [[5, 6, 7], [10, 11]]"
proof -
  have "[5, 6, 7, 10, 11] \<noteq> ([] :: int list)" by simp
  with find_longest_continuous_segment_correct [of "[5, 6, 7, 10, 11]"]
  have "find_longest_continuous_segment [5, 6, 7, 10, 11] = Inr (longest_run [5, 6, 7, 10, 11])"
    by blast
  then show ?thesis by (simp add: longest_run_def)
qed

section \<open>Properties of the interval model\<close>

text \<open>
  C9: for an empty detection sequence \<open>find_closest_intervals\<close> and
  \<open>calc_relative_errors\<close> return an empty array whatever the annotations are, also with
  fewer than two of them: the shortcut comes before the test that raises
  \<open>BeatIntervalError\<close>.
\<close>

theorem empty_detections_shortcut: "find_closest_intervals [] annotations matches = Inr []
   \<and> calc_relative_errors [] annotations matches = Inr []"
  by (simp add: find_closest_intervals_def calc_relative_errors_def)

text \<open>The interval array and the matcher.\<close>

lemma np_diff_nth: "k + 1 < length zs \<Longrightarrow> np_diff zs ! k = zs ! (k + 1) - zs ! k"
proof (induction zs arbitrary: k rule: np_diff.induct)
  case (1 x y ys)
  then show ?case by (cases k) simp_all
qed simp_all

lemma interval_table_eq:
  assumes "2 \<le> length a"
  shows "interval_table a = hd (np_diff a) # np_diff a @ [last (np_diff a)]"
proof -
  define D where "D = np_diff a"
  define n where "n = length a"
  define m where "m = n - 2"
  have m: "n = Suc (Suc m)"
    using assms unfolding n_def m_def by simp
  have len: "length D = Suc m" by (simp add: D_def np_diff_length n_def [symmetric] m)
  then obtain e es where D: "D = e # es" by (cases D) auto
  have es: "length es = m" using len D by simp
  have "drop n (replicate (n + 1) (0::real)) = [0]"
    by (simp only: drop_replicate) simp
  moreover have "take 1 (replicate (n + 1) (0::real)) = [0]"
    by (simp only: take_replicate) simp
  ultimately have filled:
    "take 1 (replicate (n + 1) (0::real)) @ D @ drop n (replicate (n + 1) 0) = 0 # D @ [0]"
    by simp
  have first: "(0 # D @ [0])[0 := (0 # D @ [0]) ! 1] = e # D @ [0]"
    by (simp add: D)
  have "(D @ [0]) ! m = D ! m" using len by (simp add: nth_append)
  moreover have "last D = D ! m" using len by (subst last_conv_nth) auto
  ultimately have nth: "(e # D @ [0]) ! (n - 1) = last D"
    by (simp add: m)
  have upd: "(e # D @ [0])[n := last D] = e # D @ [last D]"
    using len by (simp add: m list_update_append)
  have "interval_table a = e # D @ [last D]"
    unfolding interval_table_def Let_def n_def [symmetric] D_def [symmetric] filled first nth upd ..
  then show ?thesis by (simp add: D_def [symmetric] D)
qed

lemma nearest_lt: "a \<noteq> [] \<Longrightarrow> nearest q a < length a"
  by (induction q a rule: nearest.induct) simp_all

lemma nearest_le: "y \<in> set a \<Longrightarrow> \<bar>q - a ! nearest q a\<bar> \<le> \<bar>q - y\<bar>"
proof (induction q a arbitrary: y rule: nearest.induct)
  case (3 q r r' rs)
  show ?case
  proof (cases "\<bar>q - r\<bar> \<le> \<bar>q - (r' # rs) ! nearest q (r' # rs)\<bar>")
    case True
    show ?thesis
    proof (cases "y = r")
      case True then show ?thesis using \<open>\<bar>q - r\<bar> \<le> _\<close> by simp
    next
      case False
      with "3.prems" have "y \<in> set (r' # rs)" by simp
      from "3.IH"(1) [OF this] True show ?thesis by simp
    qed
  next
    case False
    show ?thesis
    proof (cases "y = r")
      case True then show ?thesis using False by simp
    next
      case ne: False
      with "3.prems" have "y \<in> set (r' # rs)" by simp
      from "3.IH"(1) [OF this] False show ?thesis by simp
    qed
  qed
qed simp_all

lemma map_zip_map:
  "map (\<lambda>(q, i). g q i) (zip qs (map f qs)) = map (\<lambda>q. g q (f q)) qs"
  by (induction qs) simp_all

lemma calc_errors_nearest:
  assumes "a \<noteq> []"
  shows "calc_errors d a (Some (map (\<lambda>q. nearest q a) d)) = Inr (map (\<lambda>q. q - a ! nearest q a) d)"
proof -
  have "\<not> (\<exists>i \<in> set (map (\<lambda>q. nearest q a) d). length a \<le> i)"
    using nearest_lt [OF assms] by (auto simp: not_le)
  then show ?thesis
    unfolding calc_errors_def resolve_matches_def
    by (simp add: map_zip_map del: set_map)
qed

lemma find_closest_intervals_None:
  assumes "2 \<le> length a"
  shows "find_closest_intervals d a None =
           Inr (map (\<lambda>q. if 0 < q - a ! nearest q a then interval_table a ! (nearest q a + 1)
                          else interval_table a ! nearest q a) d)"
proof (cases "d = []")
  case True
  then show ?thesis by (simp add: find_closest_intervals_def)
next
  case False
  have ne: "a \<noteq> []" using assms by auto
  have "map (\<lambda>(e, i). if 0 < e then interval_table a ! (i + 1) else interval_table a ! i)
          (zip (map (\<lambda>q. q - a ! nearest q a) d) (map (\<lambda>q. nearest q a) d))
        = map (\<lambda>q. if 0 < q - a ! nearest q a then interval_table a ! (nearest q a + 1)
                          else interval_table a ! nearest q a) d"
    by (induction d) simp_all
  then show ?thesis
    using False assms ne
    by (simp add: find_closest_intervals_def resolve_matches_def find_closest_matches_def
          calc_errors_nearest)
qed

lemma map_index_form:
  "map (\<lambda>q. F q (f q)) d = map (\<lambda>i. F (d ! i) (map f d ! i)) [0..<length d]"
  by (rule nth_equalityI) simp_all

text \<open>
  C4: for every sorted annotation sequence with at least two entries and every detection
  sequence, the interval array has \<open>len(annotations) + 1\<close> entries, its interior entries are
  the successive annotation differences and its two boundary entries equal their
  neighbours; \<open>find_closest_intervals\<close> returns, for each detection, the entry after its
  closest annotation if the signed error is above 0 and the entry at its closest annotation
  otherwise, and it always returns a result.
\<close>

theorem find_closest_intervals_table:
  assumes "sorted annotations" and "2 \<le> length annotations"
  shows "length (interval_table annotations) = length annotations + 1
    \<and> (\<forall>k. 1 \<le> k \<and> k < length annotations \<longrightarrow>
          interval_table annotations ! k = annotations ! k - annotations ! (k - 1))
    \<and> interval_table annotations ! 0 = interval_table annotations ! 1
    \<and> interval_table annotations ! length annotations
        = interval_table annotations ! (length annotations - 1)
    \<and> (\<exists>matches.
          find_closest_matches detections annotations = Inr matches
        \<and> length matches = length detections
        \<and> (\<forall>i < length detections.
              matches ! i < length annotations
            \<and> (\<forall>y \<in> set annotations.
                  \<bar>detections ! i - annotations ! (matches ! i)\<bar> \<le> \<bar>detections ! i - y\<bar>))
        \<and> find_closest_intervals detections annotations None
            = Inr (map (\<lambda>i. if 0 < detections ! i - annotations ! (matches ! i)
                             then interval_table annotations ! (matches ! i + 1)
                             else interval_table annotations ! (matches ! i))
                     [0..<length detections]))"
proof -
  let ?a = annotations and ?d = detections
  let ?n = "length ?a"
  have ne: "?a \<noteq> []" using assms(2) by auto
  have tab: "interval_table ?a = hd (np_diff ?a) # np_diff ?a @ [last (np_diff ?a)]"
    by (rule interval_table_eq [OF assms(2)])
  have dl: "length (np_diff ?a) = ?n - 1" by (rule np_diff_length)
  have dne: "np_diff ?a \<noteq> []" using dl assms(2) by (cases "np_diff ?a") auto
  have 1: "length (interval_table ?a) = ?n + 1"
    using assms(2) by (simp add: tab dl)
  have 2: "\<forall>k. 1 \<le> k \<and> k < ?n \<longrightarrow> interval_table ?a ! k = ?a ! k - ?a ! (k - 1)"
  proof (intro allI impI)
    fix k assume k: "1 \<le> k \<and> k < ?n"
    then obtain j where j: "k = Suc j" by (cases k) auto
    with k have "j + 1 < ?n" by simp
    then have "np_diff ?a ! j = ?a ! (j + 1) - ?a ! j" by (rule np_diff_nth)
    moreover have "j < length (np_diff ?a)" using dl k j by simp
    ultimately show "interval_table ?a ! k = ?a ! k - ?a ! (k - 1)"
      by (simp add: tab j nth_append)
  qed
  have 3: "interval_table ?a ! 0 = interval_table ?a ! 1"
    using dne by (simp add: tab nth_append hd_conv_nth)
  have 4: "interval_table ?a ! ?n = interval_table ?a ! (?n - 1)"
  proof -
    define m where "m = ?n - 2"
    have m: "?n = Suc (Suc m)" using assms(2) unfolding m_def by simp
    have "interval_table ?a ! ?n = last (np_diff ?a)"
      by (simp add: tab m nth_append dl)
    moreover have "interval_table ?a ! (?n - 1) = np_diff ?a ! m"
      by (simp add: tab m nth_append dl)
    moreover have "last (np_diff ?a) = np_diff ?a ! m"
      using dne dl by (simp add: last_conv_nth m)
    ultimately show ?thesis by simp
  qed
  let ?m = "map (\<lambda>q. nearest q ?a) ?d"
  have m1: "find_closest_matches ?d ?a = Inr ?m"
    using ne by (simp add: find_closest_matches_def)
  have m3: "\<forall>i < length ?d. ?m ! i < ?n
            \<and> (\<forall>y \<in> set ?a. \<bar>?d ! i - ?a ! (?m ! i)\<bar> \<le> \<bar>?d ! i - y\<bar>)"
    using nearest_lt [OF ne] nearest_le by simp
  have m4: "find_closest_intervals ?d ?a None
            = Inr (map (\<lambda>i. if 0 < ?d ! i - ?a ! (?m ! i)
                             then interval_table ?a ! (?m ! i + 1)
                             else interval_table ?a ! (?m ! i))
                     [0..<length ?d])"
    unfolding find_closest_intervals_None [OF assms(2)]
    by (rule arg_cong [of _ _ Inr])
       (rule map_index_form [of "\<lambda>q j. if 0 < q - ?a ! j then interval_table ?a ! (j + 1)
                                          else interval_table ?a ! j"])
  have m2: "length ?m = length ?d" by simp
  have 5: "\<exists>matches.
          find_closest_matches ?d ?a = Inr matches
        \<and> length matches = length ?d
        \<and> (\<forall>i < length ?d.
              matches ! i < ?n
            \<and> (\<forall>y \<in> set ?a. \<bar>?d ! i - ?a ! (matches ! i)\<bar> \<le> \<bar>?d ! i - y\<bar>))
        \<and> find_closest_intervals ?d ?a None
            = Inr (map (\<lambda>i. if 0 < ?d ! i - ?a ! (matches ! i)
                             then interval_table ?a ! (matches ! i + 1)
                             else interval_table ?a ! (matches ! i))
                     [0..<length ?d])"
    by (rule exI [of _ ?m]) (rule conjI [OF m1 conjI [OF m2 conjI [OF m3 m4]]])
  show ?thesis
    by (rule conjI [OF 1 conjI [OF 2 conjI [OF 3 conjI [OF 4 5]]]])
qed

theorem find_closest_intervals_table_witness:
  "sorted [0, 2, 5 :: real] \<and> 2 \<le> length [0, 2, 5 :: real]
   \<and> length (interval_table [0, 2, 5]) = length [0, 2, 5 :: real] + 1
   \<and> interval_table [0, 2, 5] = [2, 2, 3, 3]
   \<and> find_closest_intervals [- 5, 0, 11/10, 2, 31/10, 4, 9] [0, 2, 5] None
        = Inr [2, 2, 2, 2, 3, 3, 3]"
proof -
  have s: "sorted [0, 2, 5 :: real]" and l: "2 \<le> length [0, 2, 5 :: real]" by simp_all
  from find_closest_intervals_table [OF s l] have t: "length (interval_table [0, 2, 5]) = length [0, 2, 5 :: real] + 1"
    by (rule conjunct1)
  have i: "interval_table [0, 2, 5] = [2, 2, 3, 3]" by code_simp
  have f: "find_closest_intervals [- 5, 0, 11/10, 2, 31/10, 4, 9] [0, 2, 5] None
        = Inr [2, 2, 2, 2, 3, 3, 3]" by code_simp
  show ?thesis by (rule conjI [OF s conjI [OF l conjI [OF t conjI [OF i f]]]])
qed

section \<open>Properties of the onset matching\<close>

lemma onset_loop_invariant:
  "0 < window \<Longrightarrow> onset_inv det ann det_index ann_index acc \<Longrightarrow>
     \<exists>di ai acc'. onset_loop window det ann det_index ann_index acc = Inr (di, ai, acc')
        \<and> onset_inv det ann di ai acc'"
proof (induction window det ann det_index ann_index acc rule: onset_loop.induct)
  case (1 window det ann det_index ann_index tp fp fn errors)
  let ?d = "det ! det_index" and ?a = "ann ! ann_index"
  show ?case
  proof (cases "det_index < length det \<and> ann_index < length ann")
    case False
    have "onset_loop window det ann det_index ann_index (tp, fp, fn, errors)
                 = Inr (det_index, ann_index, tp, fp, fn, errors)"
      by (subst onset_loop.simps) (rule if_not_P [OF False])
    with 1(5) show ?thesis by simp
  next
    case inside: True
    show ?thesis
    proof (cases "\<bar>?d - ?a\<bar> \<le> window")
      case True
      have step: "onset_loop window det ann det_index ann_index (tp, fp, fn, errors)
                 = onset_loop window det ann (det_index + 1) (ann_index + 1)
                     (tp @ [?d], fp, fn, errors @ [?d - ?a])"
        using inside True by (subst onset_loop.simps) simp
      have "onset_inv det ann (det_index + 1) (ann_index + 1) (tp @ [?d], fp, fn, errors @ [?d - ?a])"
        using 1(5) inside by (simp add: onset_inv_def)
      from 1(1) [OF inside True 1(4) this] show ?thesis unfolding step .
    next
      case no_match: False
      show ?thesis
      proof (cases "?d < ?a")
        case True
        have step: "onset_loop window det ann det_index ann_index (tp, fp, fn, errors)
                 = onset_loop window det ann (det_index + 1) ann_index (tp, fp @ [?d], fn, errors)"
          using inside no_match True by (subst onset_loop.simps) simp
        have "onset_inv det ann (det_index + 1) ann_index (tp, fp @ [?d], fn, errors)"
          using 1(5) inside by (simp add: onset_inv_def)
        from 1(2) [OF inside no_match True 1(4) this] show ?thesis unfolding step .
      next
        case not_less: False
        have gt: "?d > ?a"
        proof (rule ccontr)
          assume "\<not> ?d > ?a"
          with not_less have "?d = ?a" by simp
          with no_match 1(4) show False by simp
        qed
        have step: "onset_loop window det ann det_index ann_index (tp, fp, fn, errors)
                 = onset_loop window det ann det_index (ann_index + 1) (tp, fp, fn @ [?a], errors)"
          using inside no_match not_less gt by (subst onset_loop.simps) simp
        have "onset_inv det ann det_index (ann_index + 1) (tp, fp, fn @ [?a], errors)"
          using 1(5) inside by (simp add: onset_inv_def)
        from 1(3) [OF inside no_match not_less gt 1(4) this] show ?thesis unfolding step .
      qed
    qed
  qed
qed

text \<open>
  C3: for every pair of sequences and every window above 0, \<open>onset_evaluation\<close> returns
  \<open>(tp, fp, tn, fn, errors)\<close> with \<open>len(tp) + len(fp) = len(detections)\<close>,
  \<open>len(tp) + len(fn) = len(annotations)\<close> and \<open>len(tp) = len(errors)\<close>; no
  \<open>AssertionError\<close> branch is taken.
\<close>

theorem onset_evaluation_counts:
  assumes "0 < window"
  shows "\<exists>tp fp fn errors.
           onset_evaluation detections annotations window = Inr (tp, fp, [], fn, errors)
           \<and> length tp + length fp = length detections
           \<and> length tp + length fn = length annotations
           \<and> length tp = length errors"
proof -
  have "onset_inv (sort detections) (sort annotations) 0 0 ([], [], [], [])"
    by (simp add: onset_inv_def)
  from onset_loop_invariant [OF assms this]
  obtain di ai tp fp fn errors where
    run: "onset_loop window (sort detections) (sort annotations) 0 0 ([], [], [], [])
            = Inr (di, ai, tp, fp, fn, errors)"
    and inv: "onset_inv (sort detections) (sort annotations) di ai (tp, fp, fn, errors)"
    by (metis prod_cases4)
  from inv have l: "di \<le> length detections" "ai \<le> length annotations"
    "length tp + length fp = di" "length tp + length fn = ai" "length tp = length errors"
    by (simp_all add: onset_inv_def)
  have fp: "length tp + length (fp @ drop di (sort detections)) = length detections"
    and fn: "length tp + length (fn @ drop ai (sort annotations)) = length annotations"
    using l by simp_all
  show ?thesis
  proof (cases "length detections = 0 \<or> length annotations = 0")
    case True
    then show ?thesis by (auto simp add: onset_evaluation_def)
  next
    case False
    then have "onset_evaluation detections annotations window
                 = Inr (tp, fp @ drop di (sort detections), [], fn @ drop ai (sort annotations), errors)"
      using assms fp fn l(5) by (simp add: onset_evaluation_def run Let_def del: length_append)
    with fp fn l(5) show ?thesis by blast
  qed
qed

theorem onset_evaluation_counts_witness:
  "(0::real) < 1 / 40
   \<and> onset_evaluation
        [99999999 / 100000000, 102999999 / 100000000, 145 / 100, 201 / 100, 202 / 100, 5 / 2,
         3025000001 / 1000000000]
        [1, 102 / 100, 3 / 2, 2, 203 / 100, 205 / 100, 5 / 2, 3] (1 / 40)
      = Inr ([99999999 / 100000000, 102999999 / 100000000, 201 / 100, 202 / 100, 5 / 2],
             [145 / 100, 3025000001 / 1000000000], [], [3 / 2, 205 / 100, 3],
             [- (1 / 100000000), 999999 / 100000000, 1 / 100, - (1 / 100), 0])"
proof -
  have w: "(0::real) < 1 / 40" by simp
  have run: "onset_evaluation
        [99999999 / 100000000, 102999999 / 100000000, 145 / 100, 201 / 100, 202 / 100, 5 / 2,
         3025000001 / 1000000000]
        [1, 102 / 100, 3 / 2, 2, 203 / 100, 205 / 100, 5 / 2, 3] (1 / 40)
      = Inr ([99999999 / 100000000, 102999999 / 100000000, 201 / 100, 202 / 100, 5 / 2],
             [145 / 100, 3025000001 / 1000000000], [], [3 / 2, 205 / 100, 3],
             [- (1 / 100000000), 999999 / 100000000, 1 / 100, - (1 / 100), 0])"
    by code_simp
  from onset_evaluation_counts [OF w, of "[99999999 / 100000000, 102999999 / 100000000, 145 / 100, 201 / 100, 202 / 100, 5 / 2,
         3025000001 / 1000000000]" "[1, 102 / 100, 3 / 2, 2, 203 / 100, 205 / 100, 5 / 2, 3]"]
  show ?thesis using w run by blast
qed

section \<open>Properties of the score functions\<close>

text \<open>
  C2, amended: with both sequences empty \<open>pscore\<close>, \<open>cemgil\<close>, \<open>goto\<close>, \<open>cml\<close> and
  \<open>continuity\<close> return 1.0 (a tuple of 1.0s), and with exactly one of them empty they
  return 0.0 (a tuple of 0.0s), whatever the tolerances. For a positive number of bins
  \<open>information_gain\<close> returns \<open>log2(num_bins)\<close> with a histogram of zeros when both
  are empty, and 0.0 with a uniform histogram when exactly one is empty.
\<close>

theorem empty_sequence_scores:
  "pscore [] [] tolerance = Inr 1
   \<and> cemgil [] [] sigma = Inr 1
   \<and> goto [] [] threshold gsigma mu = Inr 1
   \<and> cml [] [] phase_tolerance tempo_tolerance = Inr (1, 1)
   \<and> continuity [] [] phase_tolerance tempo_tolerance offbeat double triple
        = Inr (Fin 1, Fin 1, Fin 1, Fin 1)
   \<and> (0 < num_bins \<longrightarrow>
        information_gain [] [] num_bins
          = Inr (Fin (log 2 (real_of_int num_bins)), replicate (nat num_bins) 0))
   \<and> (xs \<noteq> [] \<longrightarrow>
        pscore xs [] tolerance = Inr 0 \<and> pscore [] xs tolerance = Inr 0
      \<and> cemgil xs [] sigma = Inr 0 \<and> cemgil [] xs sigma = Inr 0
      \<and> goto xs [] threshold gsigma mu = Inr 0 \<and> goto [] xs threshold gsigma mu = Inr 0
      \<and> cml xs [] phase_tolerance tempo_tolerance = Inr (0, 0)
      \<and> cml [] xs phase_tolerance tempo_tolerance = Inr (0, 0)
      \<and> continuity xs [] phase_tolerance tempo_tolerance offbeat double triple
           = Inr (Fin 0, Fin 0, Fin 0, Fin 0)
      \<and> continuity [] xs phase_tolerance tempo_tolerance offbeat double triple
           = Inr (Fin 0, Fin 0, Fin 0, Fin 0)
      \<and> (0 < num_bins \<longrightarrow>
           information_gain xs [] num_bins
             = Inr (Fin 0, replicate (nat num_bins) (real (length xs) / real_of_int num_bins))
         \<and> information_gain [] xs num_bins
             = Inr (Fin 0, replicate (nat num_bins) (real (length xs) / real_of_int num_bins))))"
  by (simp add: pscore_def cemgil_def goto_def cml_def continuity_def information_gain_def
        np_full_def np_log2_def)

theorem empty_sequence_scores_witness:
  "pscore [] [] (- 1) = Inr 1
   \<and> continuity [1, 2] [] (- 1) 0 True True True = Inr (Fin 0, Fin 0, Fin 0, Fin 0)
   \<and> information_gain [] [] 40 = Inr (Fin (log 2 40), replicate 40 0)
   \<and> information_gain [] [1, 2] 40 = Inr (Fin 0, replicate 40 (1 / 20))"
  using empty_sequence_scores [of "- 1" 0 0 0 0 "- 1" 0 True True True 40 "[1, 2]"] by simp

text \<open>
  With both sequences empty and the default 40 bins the information gain is
  \<open>log2(40)\<close>, which is above 5: the score is not 1.0.
\<close>

theorem information_gain_empty_not_one:
  "information_gain [] [] 40 = Inr (Fin (log 2 40), replicate 40 0)
   \<and> information_gain [] [] 40 \<noteq> Inr (Fin 1, replicate 40 0)
   \<and> 5 < log 2 (40 :: real)"
proof -
  have l: "5 < log 2 (40 :: real)"
    by (subst less_log_iff) simp_all
  have "information_gain [] [] 40 = Inr (Fin (log 2 40), replicate 40 0)"
    by (simp add: information_gain_def np_full_def np_log2_def)
  with l show ?thesis by simp
qed

text \<open>The absolute errors of \<open>pscore\<close> are the least distances to an annotation.\<close>

lemma nearest_distance_eq:
  assumes "a \<noteq> []"
  shows "\<bar>q - a ! nearest q a\<bar> = nearest_distance q a"
  unfolding nearest_distance_def
proof (rule Min_eqI [symmetric])
  show "finite ((\<lambda>y. \<bar>q - y\<bar>) ` set a)" by simp
next
  fix v assume "v \<in> (\<lambda>y. \<bar>q - y\<bar>) ` set a"
  then obtain y where "y \<in> set a" "v = \<bar>q - y\<bar>" by auto
  then show "\<bar>q - a ! nearest q a\<bar> \<le> v" using nearest_le by simp
next
  have "a ! nearest q a \<in> set a" using nearest_lt [OF assms] by simp
  then show "\<bar>q - a ! nearest q a\<bar> \<in> (\<lambda>y. \<bar>q - y\<bar>) ` set a" by (rule imageI)
qed

lemma calc_absolute_errors_None:
  assumes "a \<noteq> []"
  shows "calc_absolute_errors d a None = Inr (map (\<lambda>q. nearest_distance q a) d)"
proof -
  have "calc_errors d a None = calc_errors d a (Some (map (\<lambda>q. nearest q a) d))"
    using assms by (simp add: calc_errors_def resolve_matches_def find_closest_matches_def)
  then have "calc_errors d a None = Inr (map (\<lambda>q. q - a ! nearest q a) d)"
    by (simp add: calc_errors_nearest [OF assms])
  then show ?thesis
    by (simp add: calc_absolute_errors_def nearest_distance_eq [OF assms] comp_def)
qed

text \<open>
  C5: for every non-empty detection sequence, every sorted annotation sequence with at
  least two entries and every tolerance above 0, \<open>pscore\<close> returns the number of detections
  whose absolute error to the nearest annotation is at most the tolerance times the median
  of the successive annotation differences, divided by the larger of the two lengths.
\<close>

theorem pscore_counts_within_window:
  assumes "detections \<noteq> []" and "sorted annotations" and "2 \<le> length annotations"
    and "0 < tolerance"
  shows "pscore detections annotations tolerance
           = Inr (pscore_spec detections annotations tolerance)"
proof -
  have ne: "annotations \<noteq> []" using assms(3) by auto
  have dl: "length (np_diff annotations) \<noteq> 0"
    using assms(3) by (simp add: np_diff_length)
  have med: "np_median (np_diff annotations) = Fin (median (np_diff annotations))"
    using dl by (simp add: np_median_def)
  show ?thesis
    using assms(1,3,4) ne
    by (simp add: pscore_def calc_absolute_errors_None [OF ne] med filter_map comp_def
          pscore_spec_def Let_def)
qed

theorem pscore_counts_within_window_witness:
  "[0, 11/10, 2, 31/10, 4] \<noteq> ([] :: real list) \<and> sorted [0, 2, 4 :: real]
   \<and> 2 \<le> length [0, 2, 4 :: real] \<and> (0 :: real) < 1 / 5
   \<and> pscore [0, 11/10, 2, 31/10, 4] [0, 2, 4] (1 / 5) = Inr (3 / 5)
   \<and> pscore_spec [0, 11/10, 2, 31/10, 4] [0, 2, 4] (1 / 5) = 3 / 5"
proof -
  have h: "[0, 11/10, 2, 31/10, 4] \<noteq> ([] :: real list)" "sorted [0, 2, 4 :: real]"
    "2 \<le> length [0, 2, 4 :: real]" "(0 :: real) < 1 / 5"
    by simp_all
  have v: "pscore_spec [0, 11/10, 2, 31/10, 4] [0, 2, 4] (1 / 5) = 3 / 5"
    by code_simp
  from pscore_counts_within_window [OF h] v have "pscore [0, 11/10, 2, 31/10, 4] [0, 2, 4] (1 / 5) = Inr (3 / 5)"
    by simp
  with h v show ?thesis by blast
qed

text \<open>The maximum taken in the loop of \<open>continuity\<close> keeps a finite score finite and never
  lowers it.\<close>

lemma py_max_Fin_NaN: "py_max (Fin a) NaN = Fin a"
  by (simp add: py_max_def)

lemma py_max_Fin_Fin: "py_max (Fin a) (Fin b) = Fin (max a b)"
  by (simp add: py_max_def max_def)

lemma continuity_variants_ge:
  "continuity_variants d p t seqs (Fin a0) (Fin t0) = Inr (amlc, amlt) \<Longrightarrow>
     \<exists>ac atv. amlc = Fin ac \<and> amlt = Fin atv \<and> a0 \<le> ac \<and> t0 \<le> atv"
proof (induction seqs arbitrary: a0 t0)
  case Nil
  then show ?case by auto
next
  case (Cons s seqs)
  show ?case
  proof (cases "cml d s t p")
    case (Inl e)
    with Cons.prems have "e = BeatIntervalError" by (cases e) simp_all
    with Inl Cons.prems have "continuity_variants d p t seqs (Fin a0) (Fin t0) = Inr (amlc, amlt)"
      by (simp add: py_max_Fin_NaN)
    then show ?thesis by (rule Cons.IH)
  next
    case (Inr ct)
    obtain c t' where ct: "ct = (c, t')" by (cases ct)
    with Inr Cons.prems have "continuity_variants d p t seqs (Fin (max a0 c)) (Fin (max t0 t')) = Inr (amlc, amlt)"
      by (simp add: py_max_Fin_Fin)
    from Cons.IH [OF this] show ?thesis by (auto simp: max_def split: if_splits)
  qed
qed

text \<open>
  C7: whenever \<open>continuity\<close> returns \<open>(cmlc, cmlt, amlc, amlt)\<close>, all four are finite and
  \<open>amlc \<ge> cmlc\<close>, \<open>amlt \<ge> cmlt\<close>; this covers the return above 0.5 and the variants whose
  evaluation raises \<open>BeatIntervalError\<close>.
\<close>

theorem continuity_aml_ge_cml:
  assumes "continuity detections annotations phase_tolerance tempo_tolerance offbeat double triple
             = Inr (cmlc, cmlt, amlc, amlt)"
  shows "\<exists>c t ac atv. cmlc = Fin c \<and> cmlt = Fin t \<and> amlc = Fin ac \<and> amlt = Fin atv
            \<and> c \<le> ac \<and> t \<le> atv"
proof -
  consider (both) "length detections = 0 \<and> length annotations = 0"
    | (one) "\<not> (length detections = 0 \<and> length annotations = 0)"
            "(length detections = 0) \<noteq> (length annotations = 0)"
    | (neither) "\<not> (length detections = 0 \<and> length annotations = 0)"
            "\<not> ((length detections = 0) \<noteq> (length annotations = 0))"
    by blast
  then show ?thesis
  proof cases
    case both
    with assms show ?thesis by (auto simp add: continuity_def)
  next
    case one
    with assms show ?thesis by (auto simp add: continuity_def)
  next
    case neither
    show ?thesis
    proof (cases "cml detections annotations tempo_tolerance phase_tolerance")
      case (Inl e)
      with neither assms show ?thesis by (auto simp add: continuity_def)
    next
      case (Inr ct)
      obtain c t where ct: "ct = (c, t)" by (cases ct)
      show ?thesis
      proof (cases "c > 1 / 2")
        case True
        with neither assms Inr ct show ?thesis by (auto simp add: continuity_def)
      next
        case False
        have eq: "continuity detections annotations phase_tolerance tempo_tolerance offbeat double triple =
                (case variations annotations offbeat double double triple triple of
                   Inl e \<Rightarrow> Inl e
                 | Inr sequences \<Rightarrow>
                    (case continuity_variants detections phase_tolerance tempo_tolerance
                            sequences (Fin c) (Fin t) of
                       Inl e \<Rightarrow> Inl e
                     | Inr (amlc, amlt) \<Rightarrow> Inr (Fin c, Fin t, amlc, amlt)))"
          using neither Inr ct False by (simp add: continuity_def)
        obtain sequences where sq: "variations annotations offbeat double double triple triple = Inr sequences"
          using assms unfolding eq
          by (cases "variations annotations offbeat double double triple triple") simp_all
        obtain r where r: "continuity_variants detections phase_tolerance tempo_tolerance
                            sequences (Fin c) (Fin t) = Inr r"
          using assms unfolding eq sq
          by (cases "continuity_variants detections phase_tolerance tempo_tolerance
                            sequences (Fin c) (Fin t)") simp_all
        have "r = (amlc, amlt)" and cc: "cmlc = Fin c" "cmlt = Fin t"
          using assms unfolding eq sq by (simp_all add: r split: prod.splits)
        with r have lp: "continuity_variants detections phase_tolerance tempo_tolerance
                            sequences (Fin c) (Fin t) = Inr (amlc, amlt)" by simp
        from continuity_variants_ge [OF lp] cc show ?thesis by blast
      qed
    qed
  qed
qed

theorem continuity_aml_ge_cml_witness:
  "continuity [0, 11/10, 2, 31/10, 4] [0, 2, 4] (7/40) (7/40) True True True
     = Inr (Fin 0, Fin 0, Fin 1, Fin 1)
   \<and> (\<exists>c t ac atv. Fin 0 = Fin c \<and> Fin 0 = Fin t \<and> Fin 1 = Fin ac \<and> Fin 1 = Fin atv
            \<and> c \<le> ac \<and> t \<le> atv)"
proof -
  have run: "continuity [0, 11/10, 2, 31/10, 4] [0, 2, 4] (7/40) (7/40) True True True
     = Inr (Fin 0, Fin 0, Fin 1, Fin 1)"
    by code_simp
  from continuity_aml_ge_cml [OF run] run show ?thesis by blast
qed

text \<open>Whenever \<open>continuity\<close> returns, its first two components are the result of \<open>cml\<close>
  called with the tempo tolerance in the place of the phase tolerance and conversely.\<close>

lemma continuity_cml_exchanged:
  assumes "continuity detections annotations phase_tolerance tempo_tolerance offbeat double triple
             = Inr (cmlc, cmlt, amlc, amlt)"
  shows "\<exists>c t. cml detections annotations tempo_tolerance phase_tolerance = Inr (c, t)
            \<and> cmlc = Fin c \<and> cmlt = Fin t"
proof (cases "cml detections annotations tempo_tolerance phase_tolerance")
  case (Inl e)
  have "length detections = 0 \<or> length annotations = 0"
  proof (rule ccontr)
    assume "\<not> (length detections = 0 \<or> length annotations = 0)"
    with Inl have "continuity detections annotations phase_tolerance tempo_tolerance offbeat double triple
                     = Inl e"
      by (simp add: continuity_def)
    with assms show False by simp
  qed
  with Inl show ?thesis by (auto simp add: cml_def split: if_splits)
next
  case (Inr ct)
  obtain c t where ct: "ct = (c, t)" by (cases ct)
  consider (both) "length detections = 0 \<and> length annotations = 0"
    | (one) "\<not> (length detections = 0 \<and> length annotations = 0)"
            "(length detections = 0) \<noteq> (length annotations = 0)"
    | (neither) "\<not> (length detections = 0 \<and> length annotations = 0)"
            "\<not> ((length detections = 0) \<noteq> (length annotations = 0))"
    by blast
  then show ?thesis
  proof cases
    case both
    with assms Inr ct show ?thesis by (auto simp add: continuity_def cml_def)
  next
    case one
    with assms Inr ct show ?thesis by (auto simp add: continuity_def cml_def)
  next
    case neither
    show ?thesis
    proof (cases "c > 1 / 2")
      case True
      with neither assms Inr ct show ?thesis by (auto simp add: continuity_def)
    next
      case False
      have eq: "continuity detections annotations phase_tolerance tempo_tolerance offbeat double triple =
                (case variations annotations offbeat double double triple triple of
                   Inl e \<Rightarrow> Inl e
                 | Inr sequences \<Rightarrow>
                    (case continuity_variants detections phase_tolerance tempo_tolerance
                            sequences (Fin c) (Fin t) of
                       Inl e \<Rightarrow> Inl e
                     | Inr (amlc, amlt) \<Rightarrow> Inr (Fin c, Fin t, amlc, amlt)))"
        using neither Inr ct False by (simp add: continuity_def)
      have "cmlc = Fin c \<and> cmlt = Fin t"
        using assms unfolding eq by (auto split: sum.splits prod.splits)
      with Inr ct show ?thesis by simp
    qed
  qed
qed

text \<open>
  C1, at a concrete input: with phase tolerance 1/20 and tempo tolerance 1/5,
  \<open>cml\<close> returns \<open>(0, 0)\<close> for detections that are 0.1 late on a regular annotation grid,
  while \<open>continuity\<close> with the same tolerances reports CMLc = CMLt = 1, which is \<open>cml\<close> with
  the two tolerances exchanged.
\<close>

theorem continuity_tolerances_swapped_example: "cml [1/10, 11/10, 21/10, 31/10] [0, 1, 2, 3] (1/20) (1/5) = Inr (0, 0)
  \<and> continuity [1/10, 11/10, 21/10, 31/10] [0, 1, 2, 3] (1/20) (1/5) True True True
      = Inr (Fin 1, Fin 1, Fin 1, Fin 1)
  \<and> cml [1/10, 11/10, 21/10, 31/10] [0, 1, 2, 3] (1/5) (1/20) = Inr (1, 1)"
  by code_simp

section \<open>Properties of the metrical variations\<close>

text \<open>The interpolation of \<open>variations\<close> on the integer grid of positions.\<close>

lemma butlast_upt_zero: "butlast [0..<n] = [0..<n - 1]"
  by (simp add: butlast_conv_take)

lemma np_arange_unit: "np_arange n 1 = map real [0..<n]"
  by (simp add: np_arange_def)

lemma np_arange_half: "np_arange n (1 / 2) = map (\<lambda>i. real i * (1 / 2)) [0..<2 * n]"
proof -
  have "real n / (1 / 2) = real (2 * n)" by simp
  then have "nat \<lceil>real n / (1 / 2)\<rceil> = 2 * n" by (simp only: ceiling_of_nat nat_int)
  then show ?thesis by (simp only: np_arange_def)
qed

lemma interp_grid:
  "(k \<le> length ys \<longrightarrow>
      interp_at (real (j + k)) (real j, y) (zip (map real [Suc j..<Suc j + length ys]) ys)
        = (y # ys) ! k)
   \<and> (k < length ys \<longrightarrow>
      interp_at (real (j + k) + 1 / 2) (real j, y) (zip (map real [Suc j..<Suc j + length ys]) ys)
        = ((y # ys) ! k + (y # ys) ! (k + 1)) / 2)"
proof (induction ys arbitrary: j y k)
  case Nil
  show ?case by simp
next
  case (Cons y' ys')
  have grid: "zip (map real [Suc j..<Suc j + length (y' # ys')]) (y' # ys')
               = (real (Suc j), y') # zip (map real [Suc (Suc j)..<Suc (Suc j) + length ys']) ys'"
    by (subst upt_rec) simp
  show ?case
  proof (cases k)
    case 0
    have "y + (y' - y) * (1 / 2) = (y + y') / 2" by (simp add: field_simps)
    then show ?thesis unfolding grid by (simp add: 0)
  next
    case (Suc k')
    have a: "\<not> real (j + k) \<le> real j" "\<not> real (j + k) < real (Suc j)"
      "\<not> real (j + k) + 1 / 2 \<le> real j" "\<not> real (j + k) + 1 / 2 < real (Suc j)"
      by (simp_all add: Suc)
    have jk: "j + k = Suc j + k'" by (simp add: Suc)
    from Cons.IH [of k' "Suc j" y'] show ?thesis
      unfolding grid by (simp only: interp_at.simps a if_False jk)
        (simp add: Suc)
  qed
qed

lemma np_interp_grid:
  "np_interp x (map real [0..<Suc (length ys)]) (y # ys)
     = Inr (map (\<lambda>v. interp_at v (real 0, y) (zip (map real [Suc 0..<Suc 0 + length ys]) ys)) x)"
  by (simp add: np_interp_def upt_conv_Cons del: upt_Suc)

lemma double_sequence_Cons:
  "double_sequence (y # ys)
     = Inr (map (\<lambda>i. interp_at (real i * (1 / 2)) (real 0, y)
                        (zip (map real [Suc 0..<Suc 0 + length ys]) ys))
              [0..<2 * length (y # ys) - 1])"
proof -
  have "butlast (np_arange (length (y # ys)) (1 / 2))
          = map (\<lambda>i. real i * (1 / 2)) [0..<2 * length (y # ys) - 1]"
    by (simp only: np_arange_half map_butlast [symmetric] butlast_upt_zero)
  then show ?thesis
    unfolding double_sequence_def np_arange_unit
    using np_interp_grid [of _ ys y] by (simp add: comp_def del: upt_Suc)
qed

text \<open>
  C8: for a sequence of \<open>n \<ge> 1\<close> events the double-tempo variant of \<open>variations\<close> has
  \<open>2n - 1\<close> entries, the original events at the even positions and the midpoint of the two
  adjacent events at each odd position; for an empty sequence every requested variant is
  present and empty, and nothing is raised.
\<close>

theorem variations_double_and_empty:
  "(sequence \<noteq> [] \<longrightarrow>
      (\<exists>ds. variations sequence False True False False False = Inr [ds]
         \<and> length ds = 2 * length sequence - 1
         \<and> (\<forall>k. k < length sequence \<longrightarrow> ds ! (2 * k) = sequence ! k)
         \<and> (\<forall>k. k + 1 < length sequence \<longrightarrow>
               ds ! (2 * k + 1) = (sequence ! k + sequence ! (k + 1)) / 2)))
   \<and> (\<exists>vs. variations [] offbeat double half triple third = Inr vs
         \<and> length vs = (if offbeat then 1 else 0) + (if double then 1 else 0)
                        + (if half then 2 else 0) + (if triple then 1 else 0)
                        + (if third then 3 else 0)
         \<and> (\<forall>v \<in> set vs. v = []))"
proof (intro conjI impI)
  assume "sequence \<noteq> []"
  then obtain y ys where s: "sequence = y # ys" by (cases sequence) auto
  define pts where "pts = zip (map real [Suc 0..<Suc 0 + length ys]) ys"
  define f where "f = (\<lambda>i. interp_at (real i * (1 / 2)) (real 0, y) pts)"
  define N where "N = 2 * length sequence - 1"
  have d: "double_sequence sequence = Inr (map f [0..<N])"
    unfolding s f_def pts_def N_def by (rule double_sequence_Cons)
  have v: "variations sequence False True False False False = Inr [map f [0..<N]]"
    by (simp add: variations_def d)
  have l: "length (map f [0..<N]) = 2 * length sequence - 1" by (simp add: N_def)
  have nth: "map f [0..<N] ! i = f i" if "i < N" for i
    using nth_map_upt [of i N 0 f] that by simp
  have e: "\<forall>k. k < length sequence \<longrightarrow> map f [0..<N] ! (2 * k) = sequence ! k"
  proof (intro allI impI)
    fix k assume k: "k < length sequence"
    then have i: "2 * k < N" by (simp add: N_def)
    have x: "real (2 * k) * (1 / 2) = real (0 + k)" by simp
    have "k \<le> length ys" using k s by simp
    with interp_grid [of k ys 0 y]
    have "interp_at (real (0 + k)) (real 0, y) pts = (y # ys) ! k"
      unfolding pts_def by blast
    then have "f (2 * k) = sequence ! k"
      unfolding f_def x s .
    with nth [OF i] show "map f [0..<N] ! (2 * k) = sequence ! k" by simp
  qed
  have o: "\<forall>k. k + 1 < length sequence \<longrightarrow>
             map f [0..<N] ! (2 * k + 1) = (sequence ! k + sequence ! (k + 1)) / 2"
  proof (intro allI impI)
    fix k assume k: "k + 1 < length sequence"
    then have i: "2 * k + 1 < N" by (simp add: N_def)
    have x: "real (2 * k + 1) * (1 / 2) = real (0 + k) + 1 / 2" by (simp add: field_simps)
    have "k < length ys" using k s by simp
    with interp_grid [of k ys 0 y]
    have "interp_at (real (0 + k) + 1 / 2) (real 0, y) pts
            = ((y # ys) ! k + (y # ys) ! (k + 1)) / 2"
      unfolding pts_def by blast
    then have "f (2 * k + 1) = (sequence ! k + sequence ! (k + 1)) / 2"
      unfolding f_def x s .
    with nth [OF i] show "map f [0..<N] ! (2 * k + 1) = (sequence ! k + sequence ! (k + 1)) / 2"
      by simp
  qed
  show "\<exists>ds. variations sequence False True False False False = Inr [ds]
         \<and> length ds = 2 * length sequence - 1
         \<and> (\<forall>k. k < length sequence \<longrightarrow> ds ! (2 * k) = sequence ! k)
         \<and> (\<forall>k. k + 1 < length sequence \<longrightarrow>
               ds ! (2 * k + 1) = (sequence ! k + sequence ! (k + 1)) / 2)"
    by (rule exI [of _ "map f [0..<N]"]) (rule conjI [OF v conjI [OF l conjI [OF e o]]])
next
  show "\<exists>vs. variations [] offbeat double half triple third = Inr vs
         \<and> length vs = (if offbeat then 1 else 0) + (if double then 1 else 0)
                        + (if half then 2 else 0) + (if triple then 1 else 0)
                        + (if third then 3 else 0)
         \<and> (\<forall>v \<in> set vs. v = [])"
    by (simp add: variations_def double_sequence_def triple_sequence_def slice_step_def)
qed

theorem variations_double_and_empty_witness:
  "[0, 2, 4] \<noteq> ([] :: real list)
   \<and> variations [0, 2, 4] False True False False False = Inr [[0, 1, 2, 3, 4]]
   \<and> variations [] True True True True True = Inr [[], [], [], [], [], [], [], []]
   \<and> (\<exists>ds. variations [0, 2, 4] False True False False False = Inr [ds]
         \<and> length ds = 2 * length [0, 2, 4 :: real] - 1)"
proof -
  have n: "[0, 2, 4] \<noteq> ([] :: real list)" by simp
  have a: "variations [0, 2, 4] False True False False False = Inr [[0, 1, 2, 3, 4]]"
    by code_simp
  have b: "variations [] True True True True True = Inr [[], [], [], [], [], [], [], []]"
    by code_simp
  from variations_double_and_empty [of "[0, 2, 4]"] n
  have "\<exists>ds. variations [0, 2, 4] False True False False False = Inr [ds]
         \<and> length ds = 2 * length [0, 2, 4 :: real] - 1"
    by blast
  with n a b show ?thesis by blast
qed

end
